theory Spec2Isabelle
  imports Complex_Main "HOL-Library.Word"
begin

section \<open>Data model of \<open>wyoming_porcupine1/__main__.py\<close>\<close>

text \<open>
  Paths are strings (the source only ever takes \<open>str(path)\<close> of them), audio is a list
  of bytes, Python's unbounded integers are \<open>int\<close>, and the sensitivity (a float that
  is only stored, never computed with) is a \<open>real\<close>.
\<close>

type_synonym byte = "8 word"

record Keyword =
  language :: string
  name :: string
  model_path :: string

text \<open>
  The engine object \<open>pvporcupine.Porcupine\<close> is an external collaborator. What the
  source uses of it is its attribute \<open>frame_length\<close> and its method \<open>process\<close>.
  The engine is stateful: \<open>score\<close> is the opaque scoring of a frame given the frames
  seen before, \<open>processed\<close> collects the frames passed to \<open>process\<close> so far.
  \<open>handle\<close> is the identity of the object, \<open>loaded\<close> the keyword files it was
  constructed with.
\<close>

record Porcupine =
  handle :: nat
  loaded :: "string list"
  frame_length :: int
  score :: "int list list \<Rightarrow> int list \<Rightarrow> int"
  processed :: "int list list"

definition process :: "Porcupine \<Rightarrow> int list \<Rightarrow> int \<times> Porcupine" where
  "process p pcm = (score p (processed p) pcm, p\<lparr>processed := processed p @ [pcm]\<rparr>)"

record Detector =
  porcupine :: Porcupine
  sensitivity :: real

text \<open>
  Class \<open>State\<close>. Dictionaries are association lists in insertion order, which is the
  order a Python \<open>for\<close> loop visits the keys in. \<open>keywords_dict\<close> (the attribute
  \<open>keywords\<close>, a reserved word here) is optional because
  \<open>get_porcupine\<close> tests it against \<open>None\<close>.
\<close>

record State =
  pv_lib_paths :: "(string \<times> string) list"
  keywords_dict :: "(string \<times> Keyword) list option"
  detector_cache :: "(string \<times> Detector list) list"

definition State_init :: "(string \<times> string) list \<Rightarrow> (string \<times> Keyword) list option \<Rightarrow> State" where
  "State_init libs kws = \<lparr>pv_lib_paths = libs, keywords_dict = kws, detector_cache = []\<rparr>"

text \<open>
  The Python process: the shared \<open>State\<close> object, and the number of engine objects
  constructed so far, which is the identity the next engine object gets.
\<close>

record world =
  state :: State
  next_handle :: nat

datatype error =
    ValueError string
  | IndexError
  | KeyError string
  | PorcupineError string
  | AssertionError
  | AttributeError
  | StructError

text \<open>
  The external collaborators: \<open>pv_engine\<close> is what \<open>pvporcupine.create\<close> decides
  from the library path and the keyword paths (a failure, or the frame length and the
  scoring of the engine); \<open>convert\<close> is \<open>AudioChunkConverter.convert\<close>.
\<close>

record audio_chunk =
  rate :: int
  width :: int
  channels :: int
  audio :: "byte list"
  timestamp :: "int option"

record env =
  pv_engine :: "string \<Rightarrow> string list \<Rightarrow> error + int \<times> (int list list \<Rightarrow> int list \<Rightarrow> int)"
  convert :: "audio_chunk \<Rightarrow> audio_chunk"

definition pvporcupine_create :: "env \<Rightarrow> nat \<Rightarrow> string \<Rightarrow> string list \<Rightarrow> error + Porcupine" where
  "pvporcupine_create ev h lib kps =
     (case pv_engine ev lib kps of
        Inl e \<Rightarrow> Inl e
      | Inr (fl, sc) \<Rightarrow>
          Inr \<lparr>handle = h, loaded = kps, frame_length = fl, score = sc, processed = []\<rparr>)"

subsection \<open>\<open>State.get_porcupine\<close>\<close>

text \<open>
  The loop over \<open>self.keywords\<close>: every key is looked up again in the dictionary, and
  the model path of each English keyword is appended.
\<close>

fun keywords_loop :: "(string \<times> Keyword) list \<Rightarrow> string list \<Rightarrow> string list \<Rightarrow> error + string list" where
  "keywords_loop kws [] keywords_paths = Inr keywords_paths"
| "keywords_loop kws (keyword # rest) keywords_paths =
     (case map_of kws keyword of
        None \<Rightarrow> Inl (KeyError keyword)
      | Some kw \<Rightarrow>
          keywords_loop kws rest
            (if language kw = ''en'' then keywords_paths @ [model_path kw] else keywords_paths))"

text \<open>
  The cache lookup is commented out in the source, so no branch of the function reads
  or writes \<open>detector_cache\<close>. The debug call evaluates \<open>keywords_paths[0]\<close>, which
  raises \<open>IndexError\<close> on an empty list, before \<open>pv_lib_paths["en"]\<close> is looked up.
\<close>

definition get_porcupine :: "env \<Rightarrow> world \<Rightarrow> real \<Rightarrow> error + Detector \<times> world" where
  "get_porcupine ev w sens =
     (case keywords_dict (state w) of
        None \<Rightarrow> Inl (ValueError ''No keywords'')
      | Some kws \<Rightarrow>
          (case keywords_loop kws (map fst kws) [] of
             Inl e \<Rightarrow> Inl e
           | Inr keywords_paths \<Rightarrow>
               (case keywords_paths of
                  [] \<Rightarrow> Inl IndexError
                | _ # _ \<Rightarrow>
                    (case map_of (pv_lib_paths (state w)) ''en'' of
                       None \<Rightarrow> Inl (KeyError ''en'')
                     | Some lib \<Rightarrow>
                         (case pvporcupine_create ev (next_handle w) lib keywords_paths of
                            Inl e \<Rightarrow> Inl e
                          | Inr p \<Rightarrow>
                              Inr (\<lparr>porcupine = p, sensitivity = sens\<rparr>,
                                   w\<lparr>next_handle := Suc (next_handle w)\<rparr>))))))"

subsection \<open>Events\<close>

datatype event =
    Describe
  | Detect "string list option"
  | AudioStart
  | AudioChunk audio_chunk
  | AudioStop
  | Other string

type_synonym wyoming_info = "(string \<times> string) list"

datatype out_event =
    Info wyoming_info
  | Detection string "int option"
  | NotDetected

subsection \<open>\<open>Porcupine1EventHandler\<close>\<close>

record session =
  cli_sensitivity :: real
  wyoming_info_event :: wyoming_info
  client_id :: string
  audio_buffer :: "byte list"
  detected :: bool
  detector :: "Detector option"
  chunk_format :: string
  bytes_per_chunk :: int

definition session_init :: "wyoming_info \<Rightarrow> real \<Rightarrow> string \<Rightarrow> session" where
  "session_init info sens cid =
     \<lparr>cli_sensitivity = sens, wyoming_info_event = info, client_id = cid,
      audio_buffer = [], detected = False, detector = None,
      chunk_format = [], bytes_per_chunk = 0\<rparr>"

text \<open>Python slices \<open>b[:n]\<close> and \<open>b[n:]\<close>; a negative \<open>n\<close> counts from the end.\<close>

definition slice_to :: "int \<Rightarrow> 'a list \<Rightarrow> 'a list" where
  "slice_to n b = (if 0 \<le> n then take (nat n) b else take (nat (int (length b) + n)) b)"

definition slice_from :: "int \<Rightarrow> 'a list \<Rightarrow> 'a list" where
  "slice_from n b = (if 0 \<le> n then drop (nat n) b else drop (nat (int (length b) + n)) b)"

text \<open>
  \<open>struct.unpack_from\<close> for the formats the source builds, \<open>"h" * n\<close>: one signed
  16-bit sample per \<open>h\<close>, low byte first (the byte order of the supported platforms);
  too short a buffer is \<open>struct.error\<close>.
\<close>

definition sample :: "byte \<Rightarrow> byte \<Rightarrow> int" where
  "sample lo hi = sint (word_cat hi lo :: 16 word)"

fun unpack_from :: "string \<Rightarrow> byte list \<Rightarrow> error + int list" where
  "unpack_from [] buf = Inr []"
| "unpack_from (c # fmt) buf =
     (if c \<noteq> CHR ''h'' then Inl StructError
      else (case buf of
              lo # hi # rest \<Rightarrow>
                (case unpack_from fmt rest of
                   Inl e \<Rightarrow> Inl e
                 | Inr xs \<Rightarrow> Inr (sample lo hi # xs))
            | _ \<Rightarrow> Inl StructError))"

text \<open>\<open>_load_keyword\<close>: the session's sensitivity is the only argument of the acquisition.\<close>

definition load_keyword :: "env \<Rightarrow> world \<Rightarrow> session \<Rightarrow> error + session \<times> world" where
  "load_keyword ev w s =
     (case get_porcupine ev w (cli_sensitivity s) of
        Inl e \<Rightarrow> Inl e
      | Inr (d, w') \<Rightarrow>
          Inr (s\<lparr>detector := Some d,
                 chunk_format := replicate (nat (frame_length (porcupine d))) CHR ''h'',
                 bytes_per_chunk := frame_length (porcupine d) * 2\<rparr>, w'))"

text \<open>
  The \<open>while\<close> loop of the \<open>AudioChunk\<close> branch, with the events written so far as an
  accumulator. It does not end when \<open>bytes_per_chunk\<close> is not positive, so not
  returning is the value \<open>None\<close>.
\<close>

partial_function (option) drain :: "session \<Rightarrow> int option \<Rightarrow> out_event list \<Rightarrow> (error + session \<times> out_event list) option" where
  "drain s ts out =
     (if bytes_per_chunk s \<le> int (length (audio_buffer s)) then
        (case detector s of
           None \<Rightarrow> Some (Inl AttributeError)
         | Some d \<Rightarrow>
             (case unpack_from (chunk_format s) (slice_to (bytes_per_chunk s) (audio_buffer s)) of
                Inl e \<Rightarrow> Some (Inl e)
              | Inr unpacked_chunk \<Rightarrow>
                  (case process (porcupine d) unpacked_chunk of
                     (keyword_index, p) \<Rightarrow>
                       drain
                         (s\<lparr>detector := Some (d\<lparr>porcupine := p\<rparr>),
                            audio_buffer := slice_from (bytes_per_chunk s) (audio_buffer s)\<rparr>)
                         ts
                         (if 0 \<le> keyword_index then out @ [Detection ''alexa'' ts] else out))))
      else Some (Inr (s, out)))"

text \<open>
  \<open>handle_event\<close> returns the flag of the source (\<open>False\<close> ends the connection), the
  session, the process state and the events written. An exception is \<open>Inl\<close>.
\<close>

definition names_given :: "string list option \<Rightarrow> bool" where
  "names_given names = (case names of None \<Rightarrow> False | Some ns \<Rightarrow> ns \<noteq> [])"

definition handle_event :: "env \<Rightarrow> world \<Rightarrow> session \<Rightarrow> event \<Rightarrow> (error + bool \<times> session \<times> world \<times> out_event list) option" where
  "handle_event ev w s e =
     (case e of
        Describe \<Rightarrow> Some (Inr (True, s, w, [Info (wyoming_info_event s)]))
      | Detect names \<Rightarrow>
          (if names_given names then
             (case load_keyword ev w s of
                Inl err \<Rightarrow> Some (Inl err)
              | Inr (s', w') \<Rightarrow> Some (Inr (True, s', w', [])))
           else Some (Inr (True, s, w, [])))
      | AudioStart \<Rightarrow> Some (Inr (True, s\<lparr>detected := False\<rparr>, w, []))
      | AudioChunk c \<Rightarrow>
          (case (if detector s = None then load_keyword ev w s else Inr (s, w)) of
             Inl err \<Rightarrow> Some (Inl err)
           | Inr (s1, w1) \<Rightarrow>
               (case detector s1 of
                  None \<Rightarrow> Some (Inl AssertionError)
                | Some _ \<Rightarrow>
                    (case drain (s1\<lparr>audio_buffer := audio_buffer s1 @ audio (convert ev c)\<rparr>)
                            (timestamp (convert ev c)) [] of
                       None \<Rightarrow> None
                     | Some (Inl err) \<Rightarrow> Some (Inl err)
                     | Some (Inr (s2, out)) \<Rightarrow> Some (Inr (True, s2, w1, out)))))
      | AudioStop \<Rightarrow>
          Some (Inr (False, s, w, if \<not> detected s then [NotDetected] else []))
      | Other ty \<Rightarrow> Some (Inr (True, s, w, [])))"

text \<open>\<open>disconnect\<close>: the detector is unbound; the line that appends it to the cache is commented out.\<close>

definition disconnect :: "world \<Rightarrow> session \<Rightarrow> session \<times> world" where
  "disconnect w s =
     (case detector s of
        None \<Rightarrow> (s, w)
      | Some _ \<Rightarrow> (s\<lparr>detector := None\<rparr>, w))"

subsection \<open>The event loop\<close>

text \<open>
  Modelled from the spec: the loop that feeds a session its events is not in the
  sources (it is \<open>AsyncEventHandler.run\<close> of the \<open>wyoming\<close> library, the base class of
  \<open>Porcupine1EventHandler\<close>); the server shell "runs each session's event loop until
  disconnect or a terminating event". Events are handled in arrival order; the loop
  ends when \<open>handle_event\<close> returns \<open>False\<close> or raises. The events written are
  collected in order.
\<close>

fun run_events :: "env \<Rightarrow> world \<Rightarrow> session \<Rightarrow> event list \<Rightarrow> (error + bool \<times> session \<times> world \<times> out_event list) option" where
  "run_events ev w s [] = Some (Inr (True, s, w, []))"
| "run_events ev w s (e # es) =
     (case handle_event ev w s e of
        None \<Rightarrow> None
      | Some (Inl err) \<Rightarrow> Some (Inl err)
      | Some (Inr (b, s1, w1, out1)) \<Rightarrow>
          (if \<not> b then Some (Inr (False, s1, w1, out1))
           else (case run_events ev w1 s1 es of
                   None \<Rightarrow> None
                 | Some (Inl err) \<Rightarrow> Some (Inl err)
                 | Some (Inr (b2, s2, w2, out2)) \<Rightarrow> Some (Inr (b2, s2, w2, out1 @ out2)))))"

section \<open>Specification-side notions\<close>

text \<open>
  The samples of a frame, the consecutive full frames of a byte stream, and the bytes
  left over after them: the words of the specification, to compare the loop with.
\<close>

fun samples :: "byte list \<Rightarrow> int list" where
  "samples (lo # hi # rest) = sample lo hi # samples rest"
| "samples _ = []"

fun frames_of :: "nat \<Rightarrow> 'a list \<Rightarrow> 'a list list" where
  "frames_of n b = (if 0 < n \<and> n \<le> length b then take n b # frames_of n (drop n b) else [])"

fun leftover :: "nat \<Rightarrow> 'a list \<Rightarrow> 'a list" where
  "leftover n b = (if 0 < n \<and> n \<le> length b then leftover n (drop n b) else b)"

declare frames_of.simps [simp del] leftover.simps [simp del]

text \<open>
  The normalized payload bytes of a sequence of chunks, concatenated in arrival order,
  and the number of bytes of one frame of an engine.
\<close>

definition stream_of :: "env \<Rightarrow> audio_chunk list \<Rightarrow> byte list" where
  "stream_of ev cs = concat (map (\<lambda>c. audio (convert ev c)) cs)"

definition frame_byte_length :: "Porcupine \<Rightarrow> nat" where
  "frame_byte_length p = nat (frame_length p * 2)"

text \<open>The engine after a sequence of \<open>process\<close> calls, and the events these calls make the session write.\<close>

definition after_frames :: "Porcupine \<Rightarrow> int list list \<Rightarrow> Porcupine" where
  "after_frames p fs = p\<lparr>processed := processed p @ fs\<rparr>"

fun detections :: "Porcupine \<Rightarrow> int option \<Rightarrow> int list list \<Rightarrow> out_event list" where
  "detections p ts [] = []"
| "detections p ts (f # fs) =
     (if 0 \<le> fst (process p f) then [Detection ''alexa'' ts] else [])
     @ detections (snd (process p f)) ts fs"


text \<open>
  A session is ready for audio with engine \<open>p\<close> when \<open>p\<close> is bound with the frame
  format that \<open>_load_keyword\<close> derives from it, or when nothing is bound yet and the
  acquisition that the first \<open>AudioChunk\<close> triggers yields \<open>p\<close>.
\<close>

definition ready :: "env \<Rightarrow> world \<Rightarrow> session \<Rightarrow> Porcupine \<Rightarrow> bool" where
  "ready ev w s p =
     (case detector s of
        Some d \<Rightarrow>
          porcupine d = p \<and> bytes_per_chunk s = frame_length p * 2
          \<and> chunk_format s = replicate (nat (frame_length p)) CHR ''h''
      | None \<Rightarrow>
          (case get_porcupine ev w (cli_sensitivity s) of
             Inl e \<Rightarrow> False
           | Inr (d, w') \<Rightarrow> porcupine d = p))"

text \<open>
  The invariant of a session for engines of frame length \<open>F\<close>: nothing is buffered
  before a detector is bound; a bound detector has frame length \<open>F\<close>, the session's
  frame size is derived from it, and less than a frame is buffered. \<open>engines_have\<close>
  says that \<open>F\<close> is the frame length of the engines acquired from a given \<open>State\<close>.
\<close>

definition framed :: "int \<Rightarrow> session \<Rightarrow> bool" where
  "framed F s =
     (case detector s of
        None \<Rightarrow> audio_buffer s = []
      | Some d \<Rightarrow>
          frame_length (porcupine d) = F \<and> bytes_per_chunk s = F * 2
          \<and> (0 < F \<longrightarrow> int (length (audio_buffer s)) < bytes_per_chunk s))"

definition engines_have :: "env \<Rightarrow> State \<Rightarrow> int \<Rightarrow> bool" where
  "engines_have ev st F =
     (\<forall>w sens d w'. state w = st \<longrightarrow> get_porcupine ev w sens = Inr (d, w')
        \<longrightarrow> frame_length (porcupine d) = F)"

text \<open>
  Several sessions on one process. A step connects a new session, lets one session
  handle an event, or disconnects one. The process starts with the \<open>State\<close> that
  \<open>main\<close> constructs and no engine.
\<close>

record system =
  sys_world :: world
  sys_sessions :: "session list"

inductive reachable :: "env \<Rightarrow> (string \<times> string) list \<Rightarrow> (string \<times> Keyword) list option \<Rightarrow> system \<Rightarrow> bool"
  for ev :: env and libs :: "(string \<times> string) list" and kws :: "(string \<times> Keyword) list option" where
  start: "reachable ev libs kws \<lparr>sys_world = \<lparr>state = State_init libs kws, next_handle = 0\<rparr>, sys_sessions = []\<rparr>"
| connect: "reachable ev libs kws sys \<Longrightarrow>
     reachable ev libs kws (sys\<lparr>sys_sessions := sys_sessions sys @ [session_init info sens cid]\<rparr>)"
| event: "reachable ev libs kws sys \<Longrightarrow> i < length (sys_sessions sys) \<Longrightarrow>
     handle_event ev (sys_world sys) (sys_sessions sys ! i) e = Some (Inr (b, s', w', out)) \<Longrightarrow>
     reachable ev libs kws \<lparr>sys_world = w', sys_sessions = (sys_sessions sys)[i := s']\<rparr>"
| leave: "reachable ev libs kws sys \<Longrightarrow> i < length (sys_sessions sys) \<Longrightarrow>
     disconnect (sys_world sys) (sys_sessions sys ! i) = (s', w') \<Longrightarrow>
     reachable ev libs kws \<lparr>sys_world = w', sys_sessions = (sys_sessions sys)[i := s']\<rparr>"

text \<open>
  The identity of the engine a session holds, and the invariant of the process: the
  cache is empty, every engine held has an identity below the next one to be given
  out, and no two sessions hold the same engine.
\<close>

definition held :: "session \<Rightarrow> nat option" where
  "held s = map_option (\<lambda>d. handle (porcupine d)) (detector s)"

definition sys_inv :: "system \<Rightarrow> bool" where
  "sys_inv sys =
     (detector_cache (state (sys_world sys)) = []
      \<and> (\<forall>i < length (sys_sessions sys). \<forall>h. held (sys_sessions sys ! i) = Some h
            \<longrightarrow> h < next_handle (sys_world sys))
      \<and> (\<forall>i < length (sys_sessions sys). \<forall>j < length (sys_sessions sys). \<forall>h. i \<noteq> j
            \<longrightarrow> held (sys_sessions sys ! i) = Some h \<longrightarrow> held (sys_sessions sys ! j) \<noteq> Some h))"

section \<open>A small configuration\<close>

text \<open>
  One English keyword, \<open>computer\<close>, and an engine with frames of one sample (two
  bytes) that reports keyword index 0 on the frame \<open>[1]\<close> and \<open>-1\<close> otherwise. The
  converter leaves chunks as they are.
\<close>

definition demo_score :: "int list list \<Rightarrow> int list \<Rightarrow> int" where
  "demo_score hist pcm = (if pcm = [1] then 0 else - 1)"

definition demo_env :: env where
  "demo_env = \<lparr>pv_engine = (\<lambda>lib kps. Inr (1, demo_score)), convert = (\<lambda>c. c)\<rparr>"

definition demo_libs :: "(string \<times> string) list" where
  "demo_libs = [(''en'', ''porcupine_params_en.pv'')]"

definition demo_keywords :: "(string \<times> Keyword) list" where
  "demo_keywords =
     [(''computer'', \<lparr>language = ''en'', name = ''computer'', model_path = ''computer_linux.ppn''\<rparr>)]"

definition demo_world :: world where
  "demo_world = \<lparr>state = State_init demo_libs (Some demo_keywords), next_handle = 0\<rparr>"

definition demo_session :: session where
  "demo_session = session_init [(''computer'', ''en'')] (1 / 2) ''1''"

definition demo_chunk :: "byte list \<Rightarrow> audio_chunk" where
  "demo_chunk b = \<lparr>rate = 16000, width = 2, channels = 1, audio = b, timestamp = Some 7\<rparr>"

definition demo_porcupine :: "nat \<Rightarrow> int list list \<Rightarrow> Porcupine" where
  "demo_porcupine h fs =
     \<lparr>handle = h, loaded = [''computer_linux.ppn''], frame_length = 1, score = demo_score, processed = fs\<rparr>"

definition demo_armed :: "nat \<Rightarrow> int list list \<Rightarrow> byte list \<Rightarrow> session" where
  "demo_armed h fs buf =
     demo_session\<lparr>audio_buffer := buf,
       detector := Some \<lparr>porcupine = demo_porcupine h fs, sensitivity = 1 / 2\<rparr>,
       chunk_format := ''h'', bytes_per_chunk := 2\<rparr>"

text \<open>Two sessions of the configuration, each armed by a Detect event.\<close>

definition demo_system :: system where
  "demo_system = \<lparr>sys_world = demo_world\<lparr>next_handle := 2\<rparr>,
                   sys_sessions = [demo_armed 0 [] [], demo_armed 1 [] []]\<rparr>"

section \<open>Evaluation\<close>

lemmas demo_defs = demo_env_def demo_world_def demo_session_def demo_chunk_def demo_porcupine_def
  demo_armed_def demo_libs_def demo_keywords_def demo_score_def State_init_def session_init_def

lemmas exec_defs = handle_event_def load_keyword_def get_porcupine_def pvporcupine_create_def
  names_given_def slice_to_def slice_from_def process_def sample_def word_cat_eq drain.simps

section \<open>The frames of a byte stream and the drain loop\<close>

subsection \<open>Frames of a byte stream\<close>

lemma frames_of_leftover: "concat (frames_of n b) @ leftover n b = b"
proof (induction n b rule: frames_of.induct)
  case (1 n b)
  show ?case
  proof (cases "0 < n \<and> n \<le> length b")
    case True
    with 1 have "concat (frames_of n (drop n b)) @ leftover n (drop n b) = drop n b" by simp
    with True show ?thesis
      by (subst frames_of.simps, subst leftover.simps) simp
  next
    case False
    then show ?thesis
      by (subst frames_of.simps, subst leftover.simps) auto
  qed
qed

lemma leftover_short: "0 < n \<Longrightarrow> length (leftover n b) < n"
proof (induction n b rule: leftover.induct)
  case (1 n b)
  then show ?case
    by (subst leftover.simps) auto
qed

lemma frames_of_length: "f \<in> set (frames_of n b) \<Longrightarrow> length f = n"
proof (induction n b rule: frames_of.induct)
  case (1 n b)
  from "1.prems" have ok: "0 < n \<and> n \<le> length b"
    by (subst (asm) frames_of.simps) (auto split: if_splits)
  with "1.prems" have "f = take n b \<or> f \<in> set (frames_of n (drop n b))"
    by (subst (asm) frames_of.simps) (auto split: if_splits)
  with ok "1.IH" show ?case by auto
qed

lemma frames_of_count: "0 < n \<Longrightarrow> length (frames_of n b) = length b div n"
proof (induction n b rule: frames_of.induct)
  case (1 n b)
  show ?case
  proof (cases "n \<le> length b")
    case True
    with 1 have "length (frames_of n (drop n b)) = (length b - n) div n" by simp
    with True "1.prems" show ?thesis
      by (subst frames_of.simps) (simp add: le_div_geq)
  next
    case False
    then show ?thesis
      by (subst frames_of.simps) simp
  qed
qed

lemma frames_of_append: "frames_of n (a @ b) = frames_of n a @ frames_of n (leftover n a @ b)"
proof (induction n a rule: frames_of.induct)
  case (1 n a)
  show ?case
  proof (cases "0 < n \<and> n \<le> length a")
    case True
    then have "frames_of n (a @ b) = take n a # frames_of n (drop n a @ b)"
      by (subst frames_of.simps) simp
    also have "frames_of n (drop n a @ b) = frames_of n (drop n a) @ frames_of n (leftover n (drop n a) @ b)"
      using True 1 by simp
    finally show ?thesis
      using True by (subst (2) frames_of.simps, subst leftover.simps) simp
  next
    case False
    then show ?thesis
      by (subst (2) frames_of.simps, subst leftover.simps) auto
  qed
qed

lemma leftover_append: "leftover n (a @ b) = leftover n (leftover n a @ b)"
proof (induction n a rule: leftover.induct)
  case (1 n a)
  show ?case
  proof (cases "0 < n \<and> n \<le> length a")
    case True
    then have "leftover n (a @ b) = leftover n (drop n a @ b)"
      by (subst leftover.simps) simp
    also have "\<dots> = leftover n (leftover n (drop n a) @ b)"
      using True 1 by simp
    finally show ?thesis
      using True by (subst (3) leftover.simps) simp
  next
    case False
    then show ?thesis
      by (subst (3) leftover.simps) auto
  qed
qed

lemma frames_of_whole:
  assumes "0 < n" and "length a < n" and "length b = k * n"
  shows "length (frames_of n (a @ b)) = k" and "length (leftover n (a @ b)) = length a"
proof -
  show k: "length (frames_of n (a @ b)) = k"
    using assms by (simp add: frames_of_count)
  have "length (concat (frames_of n (a @ b))) = length (frames_of n (a @ b)) * n"
    by (simp add: length_concat frames_of_length sum_list_triv cong: map_cong)
  moreover have "length (concat (frames_of n (a @ b))) + length (leftover n (a @ b)) = length a + length b"
    using frames_of_leftover[of n "a @ b"] by (metis length_append)
  ultimately show "length (leftover n (a @ b)) = length a"
    using k assms(3) by simp
qed

subsection \<open>The drain loop\<close>

lemma unpack_from_frame: "length b = 2 * n \<Longrightarrow> unpack_from (replicate n CHR ''h'') b = Inr (samples b)"
proof (induction n arbitrary: b)
  case 0
  then show ?case by simp
next
  case (Suc n)
  then obtain lo hi rest where b: "b = lo # hi # rest"
    by (cases b; cases "tl b") auto
  with Suc.prems have "length rest = 2 * n" by simp
  with Suc.IH b show ?case by simp
qed

lemma after_frames_Nil: "after_frames p [] = p"
  by (simp add: after_frames_def)

lemma after_frames_Cons: "after_frames p (f # fs) = after_frames (snd (process p f)) fs"
  by (simp add: after_frames_def process_def)

lemma drain_frames:
  assumes "detector s = Some d"
    and "0 < frame_length (porcupine d)"
    and "bytes_per_chunk s = frame_length (porcupine d) * 2"
    and "chunk_format s = replicate (nat (frame_length (porcupine d))) CHR ''h''"
  shows "drain s ts out =
     Some (Inr (s\<lparr>detector := Some (d\<lparr>porcupine := after_frames (porcupine d)
                       (map samples (frames_of (nat (bytes_per_chunk s)) (audio_buffer s)))\<rparr>),
                  audio_buffer := leftover (nat (bytes_per_chunk s)) (audio_buffer s)\<rparr>,
                out @ detections (porcupine d) ts
                       (map samples (frames_of (nat (bytes_per_chunk s)) (audio_buffer s)))))"
  using assms
proof (induction "length (audio_buffer s)" arbitrary: s d out rule: less_induct)
  case less
  let ?n = "nat (bytes_per_chunk s)"
  have npos: "0 < ?n" using less.prems by simp
  show ?case
  proof (cases "?n \<le> length (audio_buffer s)")
    case False
    then have "\<not> bytes_per_chunk s \<le> int (length (audio_buffer s))" by linarith
    moreover have "frames_of ?n (audio_buffer s) = []" "leftover ?n (audio_buffer s) = audio_buffer s"
      using False by (simp_all add: frames_of.simps leftover.simps)
    ultimately show ?thesis
      using less.prems(1) by (subst drain.simps) (simp add: after_frames_Nil)
  next
    case True
    then have ge: "bytes_per_chunk s \<le> int (length (audio_buffer s))" by linarith
    let ?f = "take ?n (audio_buffer s)"
    let ?p = "snd (process (porcupine d) (samples ?f))"
    let ?d = "d\<lparr>porcupine := ?p\<rparr>"
    let ?s = "s\<lparr>detector := Some ?d, audio_buffer := drop ?n (audio_buffer s)\<rparr>"
    let ?out = "if 0 \<le> fst (process (porcupine d) (samples ?f)) then out @ [Detection ''alexa'' ts] else out"
    have len: "length ?f = 2 * nat (frame_length (porcupine d))"
      using True less.prems by simp
    have unp: "unpack_from (chunk_format s) (slice_to (bytes_per_chunk s) (audio_buffer s)) = Inr (samples ?f)"
      using less.prems unpack_from_frame[OF len] by (simp add: slice_to_def)
    have step: "drain s ts out = drain ?s ts ?out"
      using ge less.prems(1,2,3) unp
      by (subst drain.simps) (simp add: slice_from_def split: prod.splits)
    have fl: "frame_length (porcupine ?d) = frame_length (porcupine d)"
      by (simp add: process_def)
    have IH: "drain ?s ts ?out =
       Some (Inr (?s\<lparr>detector := Some (?d\<lparr>porcupine := after_frames (porcupine ?d)
                       (map samples (frames_of (nat (bytes_per_chunk ?s)) (audio_buffer ?s)))\<rparr>),
                  audio_buffer := leftover (nat (bytes_per_chunk ?s)) (audio_buffer ?s)\<rparr>,
                ?out @ detections (porcupine ?d) ts
                       (map samples (frames_of (nat (bytes_per_chunk ?s)) (audio_buffer ?s)))))"
      apply (rule less.hyps)
      using npos True less.prems fl by simp_all
    have fr: "frames_of ?n (audio_buffer s) = ?f # frames_of ?n (drop ?n (audio_buffer s))"
      using npos True by (subst frames_of.simps) simp
    have lo: "leftover ?n (audio_buffer s) = leftover ?n (drop ?n (audio_buffer s))"
      using npos True by (subst leftover.simps) simp
    show ?thesis
      unfolding step IH by (simp add: fr lo after_frames_Cons)
  qed
qed

subsection \<open>Handling chunks\<close>

lemma chunk_step:
  assumes "detector s = Some d"
    and "0 < frame_length (porcupine d)"
    and "bytes_per_chunk s = frame_length (porcupine d) * 2"
    and "chunk_format s = replicate (nat (frame_length (porcupine d))) CHR ''h''"
  shows "handle_event ev w s (AudioChunk c) =
     Some (Inr (True,
       s\<lparr>audio_buffer := leftover (frame_byte_length (porcupine d)) (audio_buffer s @ audio (convert ev c)),
         detector := Some (d\<lparr>porcupine := after_frames (porcupine d)
            (map samples (frames_of (frame_byte_length (porcupine d)) (audio_buffer s @ audio (convert ev c))))\<rparr>)\<rparr>,
       w,
       detections (porcupine d) (timestamp (convert ev c))
         (map samples (frames_of (frame_byte_length (porcupine d)) (audio_buffer s @ audio (convert ev c))))))"
proof -
  let ?s = "s\<lparr>audio_buffer := audio_buffer s @ audio (convert ev c)\<rparr>"
  have "drain ?s (timestamp (convert ev c)) [] =
     Some (Inr (?s\<lparr>detector := Some (d\<lparr>porcupine := after_frames (porcupine d)
                       (map samples (frames_of (nat (bytes_per_chunk ?s)) (audio_buffer ?s)))\<rparr>),
                  audio_buffer := leftover (nat (bytes_per_chunk ?s)) (audio_buffer ?s)\<rparr>,
                [] @ detections (porcupine d) (timestamp (convert ev c))
                       (map samples (frames_of (nat (bytes_per_chunk ?s)) (audio_buffer ?s)))))"
    by (rule drain_frames) (use assms in simp_all)
  then show ?thesis
    using assms(1,3) by (simp add: handle_event_def frame_byte_length_def)
qed

lemma run_chunks_bound:
  assumes "detector s = Some d"
    and "0 < frame_length (porcupine d)"
    and "bytes_per_chunk s = frame_length (porcupine d) * 2"
    and "chunk_format s = replicate (nat (frame_length (porcupine d))) CHR ''h''"
  shows "\<exists>s' out. run_events ev w s (map AudioChunk (c # cs)) = Some (Inr (True, s', w, out))
     \<and> detector s' = Some (d\<lparr>porcupine := after_frames (porcupine d)
          (map samples (frames_of (frame_byte_length (porcupine d)) (audio_buffer s @ stream_of ev (c # cs))))\<rparr>)
     \<and> audio_buffer s' = leftover (frame_byte_length (porcupine d)) (audio_buffer s @ stream_of ev (c # cs))"
  using assms
proof (induction cs arbitrary: c s d)
  case Nil
  show ?case
    using chunk_step[OF Nil.prems, of ev w c] by (simp add: stream_of_def)
next
  case (Cons c2 cs)
  let ?n = "frame_byte_length (porcupine d)"
  let ?b = "audio_buffer s @ audio (convert ev c)"
  let ?d1 = "d\<lparr>porcupine := after_frames (porcupine d) (map samples (frames_of ?n ?b))\<rparr>"
  let ?s1 = "s\<lparr>audio_buffer := leftover ?n ?b, detector := Some ?d1\<rparr>"
  have step: "handle_event ev w s (AudioChunk c) = Some (Inr (True, ?s1, w,
      detections (porcupine d) (timestamp (convert ev c)) (map samples (frames_of ?n ?b))))"
    by (rule chunk_step[OF Cons.prems])
  have n1: "frame_byte_length (porcupine ?d1) = ?n"
    by (simp add: frame_byte_length_def after_frames_def)
  have "\<exists>s' out. run_events ev w ?s1 (map AudioChunk (c2 # cs)) = Some (Inr (True, s', w, out))
     \<and> detector s' = Some (?d1\<lparr>porcupine := after_frames (porcupine ?d1)
          (map samples (frames_of (frame_byte_length (porcupine ?d1)) (audio_buffer ?s1 @ stream_of ev (c2 # cs))))\<rparr>)
     \<and> audio_buffer s' = leftover (frame_byte_length (porcupine ?d1)) (audio_buffer ?s1 @ stream_of ev (c2 # cs))"
    by (rule Cons.IH) (use Cons.prems in \<open>simp_all add: after_frames_def\<close>)
  then obtain s' out where run: "run_events ev w ?s1 (map AudioChunk (c2 # cs)) = Some (Inr (True, s', w, out))"
    and det: "detector s' = Some (?d1\<lparr>porcupine := after_frames (porcupine ?d1)
          (map samples (frames_of ?n (leftover ?n ?b @ stream_of ev (c2 # cs))))\<rparr>)"
    and buf: "audio_buffer s' = leftover ?n (leftover ?n ?b @ stream_of ev (c2 # cs))"
    unfolding n1 by auto
  have str: "audio_buffer s @ stream_of ev (c # c2 # cs) = ?b @ stream_of ev (c2 # cs)"
    by (simp add: stream_of_def)
  have fr: "frames_of ?n (?b @ stream_of ev (c2 # cs))
      = frames_of ?n ?b @ frames_of ?n (leftover ?n ?b @ stream_of ev (c2 # cs))"
    by (rule frames_of_append)
  have lo: "leftover ?n (?b @ stream_of ev (c2 # cs)) = leftover ?n (leftover ?n ?b @ stream_of ev (c2 # cs))"
    by (rule leftover_append)
  have "run_events ev w s (map AudioChunk (c # c2 # cs)) =
      Some (Inr (True, s', w, detections (porcupine d) (timestamp (convert ev c)) (map samples (frames_of ?n ?b)) @ out))"
    using step run by simp
  moreover have "detector s' = Some (d\<lparr>porcupine := after_frames (porcupine d)
          (map samples (frames_of ?n (audio_buffer s @ stream_of ev (c # c2 # cs))))\<rparr>)"
    unfolding str fr det by (simp add: after_frames_def)
  moreover have "audio_buffer s' = leftover ?n (audio_buffer s @ stream_of ev (c # c2 # cs))"
    unfolding str lo buf ..
  ultimately show ?case by blast
qed

lemma chunk_unbound:
  assumes "detector s = None" and "get_porcupine ev w (cli_sensitivity s) = Inr (d, w')"
  shows "handle_event ev w s (AudioChunk c) =
     handle_event ev w'
       (s\<lparr>detector := Some d,
          chunk_format := replicate (nat (frame_length (porcupine d))) CHR ''h'',
          bytes_per_chunk := frame_length (porcupine d) * 2\<rparr>) (AudioChunk c)"
  using assms by (simp add: handle_event_def load_keyword_def)

section \<open>Acquisition and the session invariant\<close>

lemma get_porcupine_Inr:
  assumes "get_porcupine ev w sens = Inr (d, w')"
  shows "\<exists>kws ps lib fl sc.
       keywords_dict (state w) = Some kws
     \<and> keywords_loop kws (map fst kws) [] = Inr ps \<and> ps \<noteq> []
     \<and> map_of (pv_lib_paths (state w)) ''en'' = Some lib
     \<and> pv_engine ev lib ps = Inr (fl, sc)
     \<and> d = \<lparr>porcupine = \<lparr>handle = next_handle w, loaded = ps, frame_length = fl,
                            score = sc, processed = []\<rparr>, sensitivity = sens\<rparr>
     \<and> w' = w\<lparr>next_handle := Suc (next_handle w)\<rparr>"
proof -
  from assms obtain kws where k: "keywords_dict (state w) = Some kws"
    by (cases "keywords_dict (state w)") (simp_all add: get_porcupine_def)
  from assms k obtain ps where l: "keywords_loop kws (map fst kws) [] = Inr ps"
    by (cases "keywords_loop kws (map fst kws) []") (simp_all add: get_porcupine_def)
  from assms k l have ne: "ps \<noteq> []"
    by (cases ps) (simp_all add: get_porcupine_def)
  then have ps: "(case ps of [] \<Rightarrow> a | x # xs \<Rightarrow> b) = b" for a b :: "error + Detector \<times> world"
    by (cases ps) simp_all
  from assms k l obtain lib where m: "map_of (pv_lib_paths (state w)) ''en'' = Some lib"
    by (cases "map_of (pv_lib_paths (state w)) ''en''") (simp_all add: get_porcupine_def ps)
  from assms k l m obtain fl sc where e: "pv_engine ev lib ps = Inr (fl, sc)"
    by (cases "pv_engine ev lib ps") (auto simp: get_porcupine_def ps pvporcupine_create_def)
  from assms k l m e have "d = \<lparr>porcupine = \<lparr>handle = next_handle w, loaded = ps, frame_length = fl,
                            score = sc, processed = []\<rparr>, sensitivity = sens\<rparr>
     \<and> w' = w\<lparr>next_handle := Suc (next_handle w)\<rparr>"
    by (simp add: get_porcupine_def ps pvporcupine_create_def)
  with k l ne m e show ?thesis by blast
qed

lemma get_porcupine_result:
  assumes "get_porcupine ev w sens = Inr (d, w')"
  shows "w' = w\<lparr>next_handle := Suc (next_handle w)\<rparr>"
    and "handle (porcupine d) = next_handle w"
    and "processed (porcupine d) = []"
    and "sensitivity d = sens"
  using get_porcupine_Inr[OF assms] by auto

lemma get_porcupine_frame_length:
  assumes "get_porcupine ev w1 sens1 = Inr (d1, w1')"
    and "get_porcupine ev w2 sens2 = Inr (d2, w2')"
    and "state w1 = state w2"
  shows "frame_length (porcupine d1) = frame_length (porcupine d2)"
proof -
  from get_porcupine_Inr[OF assms(1)] obtain kws ps lib fl sc where
    a: "keywords_dict (state w1) = Some kws" "keywords_loop kws (map fst kws) [] = Inr ps"
       "map_of (pv_lib_paths (state w1)) ''en'' = Some lib" "pv_engine ev lib ps = Inr (fl, sc)"
       "frame_length (porcupine d1) = fl"
    by auto
  from get_porcupine_Inr[OF assms(2)] obtain kws2 ps2 lib2 fl2 sc2 where
    b: "keywords_dict (state w2) = Some kws2" "keywords_loop kws2 (map fst kws2) [] = Inr ps2"
       "map_of (pv_lib_paths (state w2)) ''en'' = Some lib2" "pv_engine ev lib2 ps2 = Inr (fl2, sc2)"
       "frame_length (porcupine d2) = fl2"
    by auto
  from a(1) b(1) assms(3) have "kws2 = kws" by simp
  with a(2) b(2) have "ps2 = ps" by simp
  moreover from a(3) b(3) assms(3) have "lib2 = lib" by simp
  ultimately have "fl2 = fl" using a(4) b(4) by simp
  with a(5) b(5) show ?thesis by simp
qed

lemma drain_exit:
  assumes "drain s ts out = Some r"
  shows "\<forall>s' out' d. r = Inr (s', out') \<longrightarrow> detector s = Some d \<longrightarrow>
     (\<exists>d'. detector s' = Some d'
        \<and> frame_length (porcupine d') = frame_length (porcupine d)
        \<and> handle (porcupine d') = handle (porcupine d)
        \<and> bytes_per_chunk s' = bytes_per_chunk s
        \<and> chunk_format s' = chunk_format s
        \<and> detected s' = detected s
        \<and> int (length (audio_buffer s')) < bytes_per_chunk s')"
  using assms
proof (induction rule: drain.raw_induct[rotated 1, consumes 1])
  case (1 drain s ts out r)
  show ?case
  proof (intro allI impI)
    fix s' out' d
    assume r: "r = Inr (s', out')" and d: "detector s = Some d"
    show "\<exists>d'. detector s' = Some d'
        \<and> frame_length (porcupine d') = frame_length (porcupine d)
        \<and> handle (porcupine d') = handle (porcupine d)
        \<and> bytes_per_chunk s' = bytes_per_chunk s
        \<and> chunk_format s' = chunk_format s
        \<and> detected s' = detected s
        \<and> int (length (audio_buffer s')) < bytes_per_chunk s'"
    proof (cases "bytes_per_chunk s \<le> int (length (audio_buffer s))")
      case False
      with "1"(2) r d show ?thesis by simp
    next
      case True
      with "1"(2) d obtain frame where
        unp: "unpack_from (chunk_format s) (slice_to (bytes_per_chunk s) (audio_buffer s)) = Inr frame"
        by (cases "unpack_from (chunk_format s) (slice_to (bytes_per_chunk s) (audio_buffer s))")
           (auto simp: r)
      let ?d = "d\<lparr>porcupine := snd (process (porcupine d) frame)\<rparr>"
      let ?s = "s\<lparr>detector := Some ?d, audio_buffer := slice_from (bytes_per_chunk s) (audio_buffer s)\<rparr>"
      let ?out = "if 0 \<le> fst (process (porcupine d) frame) then out @ [Detection ''alexa'' ts] else out"
      from "1"(2) True d unp have "drain ?s ts ?out = Some r"
        by (simp add: case_prod_beta split del: if_split)
      from "1"(1)[OF this] r have "\<exists>d'. detector s' = Some d'
        \<and> frame_length (porcupine d') = frame_length (porcupine ?d)
        \<and> handle (porcupine d') = handle (porcupine ?d)
        \<and> bytes_per_chunk s' = bytes_per_chunk ?s
        \<and> chunk_format s' = chunk_format ?s
        \<and> detected s' = detected ?s
        \<and> int (length (audio_buffer s')) < bytes_per_chunk s'"
        by simp
      then show ?thesis by (simp add: process_def)
    qed
  qed
qed

lemma load_keyword_framed:
  assumes "load_keyword ev w s = Inr (s', w')" and "framed F s" and "engines_have ev (state w) F"
  shows "framed F s'" and "state w' = state w" and "audio_buffer s' = audio_buffer s"
    and "\<exists>d. detector s' = Some d"
proof -
  from assms(1) obtain d where gp: "get_porcupine ev w (cli_sensitivity s) = Inr (d, w')"
    and s': "s' = s\<lparr>detector := Some d,
                 chunk_format := replicate (nat (frame_length (porcupine d))) CHR ''h'',
                 bytes_per_chunk := frame_length (porcupine d) * 2\<rparr>"
    by (auto simp: load_keyword_def split: sum.splits)
  from gp assms(3) have F: "frame_length (porcupine d) = F"
    unfolding engines_have_def by blast
  from assms(2) have "0 < F \<longrightarrow> int (length (audio_buffer s)) < F * 2"
    by (auto simp: framed_def split: option.splits)
  with F s' show "framed F s'" by (simp add: framed_def)
  from get_porcupine_result(1)[OF gp] show "state w' = state w" by simp
  from s' show "audio_buffer s' = audio_buffer s" by simp
  from s' show "\<exists>d. detector s' = Some d" by simp
qed

lemma handle_chunk_Inr:
  assumes "handle_event ev w s (AudioChunk c) = Some (Inr (b, s', w', out))"
  shows "\<exists>s1 d1. (if detector s = None then load_keyword ev w s else Inr (s, w)) = Inr (s1, w')
     \<and> detector s1 = Some d1
     \<and> drain (s1\<lparr>audio_buffer := audio_buffer s1 @ audio (convert ev c)\<rparr>)
          (timestamp (convert ev c)) [] = Some (Inr (s', out))
     \<and> b"
proof (cases "if detector s = None then load_keyword ev w s else Inr (s, w)")
  case (Inl err)
  with assms show ?thesis by (simp add: handle_event_def)
next
  case (Inr r)
  obtain s1 w1 where r: "r = (s1, w1)" by (cases r)
  note ld = Inr[unfolded r]
  show ?thesis
  proof (cases "detector s1")
    case None
    with assms ld show ?thesis by (simp add: handle_event_def)
  next
    case (Some d1)
    show ?thesis
    proof (cases "drain (s1\<lparr>audio_buffer := audio_buffer s1 @ audio (convert ev c)\<rparr>)
          (timestamp (convert ev c)) []")
      case None
      with assms ld Some show ?thesis by (simp add: handle_event_def)
    next
      case dr: (Some res)
      show ?thesis
      proof (cases res)
        case (Inl err)
        with assms ld Some dr show ?thesis by (simp add: handle_event_def)
      next
        case (Inr q)
        obtain s2 out2 where q: "q = (s2, out2)" by (cases q)
        from assms ld Some dr Inr q have "b \<and> s' = s2 \<and> w' = w1 \<and> out = out2"
          by (simp add: handle_event_def)
        with ld Some dr Inr q show ?thesis by simp
      qed
    qed
  qed
qed

lemma handle_event_framed:
  assumes "handle_event ev w s e = Some (Inr (b, s', w', out))"
    and "framed F s" and "engines_have ev (state w) F"
  shows "framed F s' \<and> state w' = state w"
proof (cases e)
  case Describe
  with assms(1,2) show ?thesis by (simp add: handle_event_def)
next
  case (Detect names)
  show ?thesis
  proof (cases "names_given names")
    case True
    with assms(1) Detect have "load_keyword ev w s = Inr (s', w')"
      by (cases "load_keyword ev w s") (auto simp: handle_event_def)
    from load_keyword_framed(1,2)[OF this assms(2,3)] show ?thesis by simp
  next
    case False
    with assms(1,2) Detect show ?thesis by (simp add: handle_event_def)
  qed
next
  case AudioStart
  from assms(1) AudioStart have s': "s' = s\<lparr>detected := False\<rparr>" and w': "w' = w"
    by (simp_all add: handle_event_def)
  have "framed F (s\<lparr>detected := False\<rparr>)"
    using assms(2) by (auto simp: framed_def split: option.splits)
  with s' w' show ?thesis by simp
next
  case (AudioChunk c)
  from handle_chunk_Inr[OF assms(1)[unfolded AudioChunk]]
  obtain s1 d1 where ld: "(if detector s = None then load_keyword ev w s else Inr (s, w)) = Inr (s1, w')"
    and d1: "detector s1 = Some d1"
    and dr: "drain (s1\<lparr>audio_buffer := audio_buffer s1 @ audio (convert ev c)\<rparr>)
          (timestamp (convert ev c)) [] = Some (Inr (s', out))"
    by blast
  have f1: "framed F s1 \<and> state w' = state w"
  proof (cases "detector s = None")
    case True
    with ld have "load_keyword ev w s = Inr (s1, w')" by simp
    from load_keyword_framed(1,2)[OF this assms(2,3)] show ?thesis by simp
  next
    case False
    with ld assms(2) show ?thesis by simp
  qed
  let ?s2 = "s1\<lparr>audio_buffer := audio_buffer s1 @ audio (convert ev c)\<rparr>"
  have "detector ?s2 = Some d1" using d1 by simp
  with drain_exit[OF dr] obtain d' where "detector s' = Some d'"
    "frame_length (porcupine d') = frame_length (porcupine d1)"
    "bytes_per_chunk s' = bytes_per_chunk ?s2"
    "int (length (audio_buffer s')) < bytes_per_chunk s'"
    by blast
  with f1 d1 have "framed F s'" by (simp add: framed_def)
  with f1 show ?thesis by simp
next
  case AudioStop
  with assms(1,2) show ?thesis by (simp add: handle_event_def)
next
  case (Other ty)
  with assms(1,2) show ?thesis by (simp add: handle_event_def)
qed

lemma run_events_framed:
  assumes "run_events ev w s evs = Some (Inr (b, s', w', out))"
    and "framed F s" and "engines_have ev (state w) F"
  shows "framed F s'"
  using assms
proof (induction evs arbitrary: w s b out)
  case Nil
  then show ?case by simp
next
  case (Cons e evs)
  from Cons.prems(1) obtain b1 s1 w1 out1 where
    h: "handle_event ev w s e = Some (Inr (b1, s1, w1, out1))"
    by (cases "handle_event ev w s e"; simp split: sum.splits) auto
  from handle_event_framed[OF h Cons.prems(2,3)] have f1: "framed F s1" and st: "state w1 = state w"
    by simp_all
  show ?case
  proof (cases b1)
    case False
    with Cons.prems(1) h f1 show ?thesis by simp
  next
    case True
    with Cons.prems(1) h obtain out2 where "run_events ev w1 s1 evs = Some (Inr (b, s', w', out2))"
      by (cases "run_events ev w1 s1 evs"; simp split: sum.splits) auto
    from Cons.IH[OF this f1] Cons.prems(3) st show ?thesis by simp
  qed
qed

lemma engines_have_ex: "\<exists>F. engines_have ev st F"
proof (cases "\<exists>w sens d w'. state w = st \<and> get_porcupine ev w sens = Inr (d, w')")
  case True
  then obtain w sens d w' where st: "state w = st" and g: "get_porcupine ev w sens = Inr (d, w')"
    by blast
  have "engines_have ev st (frame_length (porcupine d))"
    unfolding engines_have_def
  proof (intro allI impI)
    fix w2 sens2 d2 w2'
    assume "state w2 = st" and "get_porcupine ev w2 sens2 = Inr (d2, w2')"
    with get_porcupine_frame_length[OF _ g] st
    show "frame_length (porcupine d2) = frame_length (porcupine d)"
      by simp
  qed
  then show ?thesis ..
next
  case False
  then have "engines_have ev st 0" unfolding engines_have_def by blast
  then show ?thesis ..
qed

subsection \<open>The keyword loop\<close>




section \<open>Several sessions on one process\<close>

lemma load_keyword_world:
  assumes "load_keyword ev w s = Inr (s', w')"
  shows "state w' = state w" and "next_handle w' = Suc (next_handle w)"
    and "held s' = Some (next_handle w)"
proof -
  from assms obtain d where gp: "get_porcupine ev w (cli_sensitivity s) = Inr (d, w')"
    and s': "s' = s\<lparr>detector := Some d,
                 chunk_format := replicate (nat (frame_length (porcupine d))) CHR ''h'',
                 bytes_per_chunk := frame_length (porcupine d) * 2\<rparr>"
    by (cases "get_porcupine ev w (cli_sensitivity s)") (auto simp: load_keyword_def)
  from get_porcupine_result(1)[OF gp] show "state w' = state w" "next_handle w' = Suc (next_handle w)"
    by simp_all
  from get_porcupine_result(2)[OF gp] s' show "held s' = Some (next_handle w)"
    by (simp add: held_def)
qed

lemma handle_event_world:
  assumes "handle_event ev w s e = Some (Inr (b, s', w', out))"
  shows "state w' = state w
     \<and> (held s' = held s \<and> next_handle w' = next_handle w
        \<or> held s' = Some (next_handle w) \<and> next_handle w' = Suc (next_handle w))"
proof (cases e)
  case Describe
  with assms show ?thesis by (simp add: handle_event_def)
next
  case (Detect names)
  show ?thesis
  proof (cases "names_given names")
    case True
    with assms Detect have "load_keyword ev w s = Inr (s', w')"
      by (cases "load_keyword ev w s") (auto simp: handle_event_def)
    from load_keyword_world[OF this] show ?thesis by simp
  next
    case False
    with assms Detect show ?thesis by (simp add: handle_event_def)
  qed
next
  case AudioStart
  from assms AudioStart have "s' = s\<lparr>detected := False\<rparr>" "w' = w"
    by (simp_all add: handle_event_def)
  then show ?thesis by (simp add: held_def)
next
  case (AudioChunk c)
  from handle_chunk_Inr[OF assms[unfolded AudioChunk]]
  obtain s1 d1 where ld: "(if detector s = None then load_keyword ev w s else Inr (s, w)) = Inr (s1, w')"
    and d1: "detector s1 = Some d1"
    and dr: "drain (s1\<lparr>audio_buffer := audio_buffer s1 @ audio (convert ev c)\<rparr>)
          (timestamp (convert ev c)) [] = Some (Inr (s', out))"
    by blast
  let ?s2 = "s1\<lparr>audio_buffer := audio_buffer s1 @ audio (convert ev c)\<rparr>"
  have "detector ?s2 = Some d1" using d1 by simp
  with drain_exit[OF dr] obtain d' where "detector s' = Some d'"
    "handle (porcupine d') = handle (porcupine d1)"
    by blast
  with d1 have h: "held s' = held s1" by (simp add: held_def)
  show ?thesis
  proof (cases "detector s = None")
    case True
    with ld have "load_keyword ev w s = Inr (s1, w')" by simp
    from load_keyword_world[OF this] h show ?thesis by simp
  next
    case False
    with ld h show ?thesis by simp
  qed
next
  case AudioStop
  with assms show ?thesis by (simp add: handle_event_def)
next
  case (Other ty)
  with assms show ?thesis by (simp add: handle_event_def)
qed

lemma disconnect_world:
  assumes "disconnect w s = (s', w')"
  shows "w' = w" and "held s' = None"
proof -
  show "w' = w"
    using assms by (cases "detector s") (simp_all add: disconnect_def)
  show "held s' = None"
  proof (cases "detector s")
    case None
    with assms have "s' = s" by (simp add: disconnect_def)
    with None show ?thesis by (simp add: held_def)
  next
    case (Some d)
    with assms have "s' = s\<lparr>detector := None\<rparr>" by (simp add: disconnect_def)
    then show ?thesis by (simp add: held_def)
  qed
qed

lemma get_porcupine_cache:
  "map_sum id fst (get_porcupine ev (w\<lparr>state := (state w)\<lparr>detector_cache := c\<rparr>\<rparr>) sens)
     = map_sum id fst (get_porcupine ev w sens)"
proof (cases "keywords_dict (state w)")
  case None
  then show ?thesis by (simp add: get_porcupine_def)
next
  case (Some kws)
  show ?thesis
  proof (cases "keywords_loop kws (map fst kws) []")
    case (Inl e)
    with Some show ?thesis by (simp add: get_porcupine_def)
  next
    case (Inr ps)
    show ?thesis
    proof (cases ps)
      case Nil
      with Some Inr show ?thesis by (simp add: get_porcupine_def)
    next
      case (Cons p ps')
      show ?thesis
      proof (cases "map_of (pv_lib_paths (state w)) ''en''")
        case None
        with Some Inr Cons show ?thesis by (simp add: get_porcupine_def)
      next
        case lib: (Some lib)
        show ?thesis
        proof (cases "pvporcupine_create ev (next_handle w) lib (p # ps')")
          case (Inl e)
          with Some Inr Cons lib show ?thesis by (simp add: get_porcupine_def)
        next
          case eng: (Inr eng)
          with Some Inr Cons lib show ?thesis by (simp add: get_porcupine_def)
        qed
      qed
    qed
  qed
qed

lemma sys_inv_update:
  assumes inv: "sys_inv sys" and i: "i < length (sys_sessions sys)"
    and st: "state w' = state (sys_world sys)"
    and alt: "held s' = held (sys_sessions sys ! i) \<and> next_handle w' = next_handle (sys_world sys)
        \<or> held s' = None \<and> w' = sys_world sys
        \<or> held s' = Some (next_handle (sys_world sys)) \<and> next_handle w' = Suc (next_handle (sys_world sys))"
  shows "sys_inv \<lparr>sys_world = w', sys_sessions = (sys_sessions sys)[i := s']\<rparr>"
proof -
  let ?ss = "sys_sessions sys"
  let ?w = "sys_world sys"
  from inv have cache: "detector_cache (state ?w) = []"
    and below: "\<And>k h. k < length ?ss \<Longrightarrow> held (?ss ! k) = Some h \<Longrightarrow> h < next_handle ?w"
    and apart: "\<And>k j h. k < length ?ss \<Longrightarrow> j < length ?ss \<Longrightarrow> k \<noteq> j
          \<Longrightarrow> held (?ss ! k) = Some h \<Longrightarrow> held (?ss ! j) \<noteq> Some h"
    unfolding sys_inv_def by blast+
  from alt have mono: "next_handle ?w \<le> next_handle w'" by auto
  have new_below: "h < next_handle w'" if "held s' = Some h" for h
    using alt that below[OF i] by auto
  have new_apart: "held (?ss ! j) \<noteq> Some h" if "held s' = Some h" "j < length ?ss" "j \<noteq> i" for j h
  proof
    assume j: "held (?ss ! j) = Some h"
    from alt that(1) consider "held (?ss ! i) = Some h" | "h = next_handle ?w" by auto
    then show False
    proof cases
      case 1
      from apart[OF i that(2) _ 1] that(3) j show False by auto
    next
      case 2
      with below[OF that(2) j] show False by simp
    qed
  qed
  have nth: "(?ss[i := s']) ! k = (if k = i then s' else ?ss ! k)" if "k < length ?ss" for k
    using that i by (simp add: nth_list_update)
  show ?thesis
    unfolding sys_inv_def
  proof (intro conjI allI impI)
    show "detector_cache (state (sys_world \<lparr>sys_world = w', sys_sessions = ?ss[i := s']\<rparr>)) = []"
      using cache st by simp
  next
    fix k h
    assume k: "k < length (sys_sessions \<lparr>sys_world = w', sys_sessions = ?ss[i := s']\<rparr>)"
      and h: "held (sys_sessions \<lparr>sys_world = w', sys_sessions = ?ss[i := s']\<rparr> ! k) = Some h"
    from k have k': "k < length ?ss" by simp
    show "h < next_handle (sys_world \<lparr>sys_world = w', sys_sessions = ?ss[i := s']\<rparr>)"
    proof (cases "k = i")
      case True
      with h k' nth have "held s' = Some h" by simp
      from new_below[OF this] show ?thesis by simp
    next
      case False
      with h k' nth have "held (?ss ! k) = Some h" by simp
      from below[OF k' this] mono show ?thesis by simp
    qed
  next
    fix k j h
    assume k: "k < length (sys_sessions \<lparr>sys_world = w', sys_sessions = ?ss[i := s']\<rparr>)"
      and j: "j < length (sys_sessions \<lparr>sys_world = w', sys_sessions = ?ss[i := s']\<rparr>)"
      and kj: "k \<noteq> j"
      and h: "held (sys_sessions \<lparr>sys_world = w', sys_sessions = ?ss[i := s']\<rparr> ! k) = Some h"
    from k j have k': "k < length ?ss" and j': "j < length ?ss" by simp_all
    show "held (sys_sessions \<lparr>sys_world = w', sys_sessions = ?ss[i := s']\<rparr> ! j) \<noteq> Some h"
    proof (cases "k = i")
      case True
      with h k' nth have hs: "held s' = Some h" by simp
      from True kj have "j \<noteq> i" by simp
      with new_apart[OF hs j'] nth[OF j'] show ?thesis by simp
    next
      case False
      with h k' nth have hk: "held (?ss ! k) = Some h" by simp
      show ?thesis
      proof (cases "j = i")
        case True
        have "held s' \<noteq> Some h"
        proof
          assume "held s' = Some h"
          from new_apart[OF this k' False] hk show False by simp
        qed
        with True nth[OF j'] show ?thesis by simp
      next
        case False
        with apart[OF k' j' kj hk] nth[OF j'] show ?thesis by simp
      qed
    qed
  qed
qed

lemma sys_inv_append:
  assumes inv: "sys_inv sys" and new: "held s = None"
  shows "sys_inv (sys\<lparr>sys_sessions := sys_sessions sys @ [s]\<rparr>)"
proof -
  let ?ss = "sys_sessions sys"
  let ?w = "sys_world sys"
  from inv have cache: "detector_cache (state ?w) = []"
    and below: "\<And>k h. k < length ?ss \<Longrightarrow> held (?ss ! k) = Some h \<Longrightarrow> h < next_handle ?w"
    and apart: "\<And>k j h. k < length ?ss \<Longrightarrow> j < length ?ss \<Longrightarrow> k \<noteq> j
          \<Longrightarrow> held (?ss ! k) = Some h \<Longrightarrow> held (?ss ! j) \<noteq> Some h"
    unfolding sys_inv_def by blast+
  have old: "k < length ?ss" if "k < length (?ss @ [s])" "held ((?ss @ [s]) ! k) = Some h" for k h
  proof (rule ccontr)
    assume "\<not> k < length ?ss"
    with that(1) have "k = length ?ss" by simp
    with that(2) new show False by simp
  qed
  have nth: "(?ss @ [s]) ! k = ?ss ! k" if "k < length ?ss" for k
    using that by (simp add: nth_append)
  show ?thesis
    unfolding sys_inv_def
  proof (intro conjI allI impI)
    show "detector_cache (state (sys_world (sys\<lparr>sys_sessions := ?ss @ [s]\<rparr>))) = []"
      using cache by simp
  next
    fix k h
    assume "k < length (sys_sessions (sys\<lparr>sys_sessions := ?ss @ [s]\<rparr>))"
      and "held (sys_sessions (sys\<lparr>sys_sessions := ?ss @ [s]\<rparr>) ! k) = Some h"
    then have k: "k < length (?ss @ [s])" and h: "held ((?ss @ [s]) ! k) = Some h" by simp_all
    from old[OF k h] have k': "k < length ?ss" .
    with h nth have "held (?ss ! k) = Some h" by simp
    from below[OF k' this] show "h < next_handle (sys_world (sys\<lparr>sys_sessions := ?ss @ [s]\<rparr>))"
      by simp
  next
    fix k j h
    assume "k < length (sys_sessions (sys\<lparr>sys_sessions := ?ss @ [s]\<rparr>))"
      and "j < length (sys_sessions (sys\<lparr>sys_sessions := ?ss @ [s]\<rparr>))"
      and kj: "k \<noteq> j"
      and "held (sys_sessions (sys\<lparr>sys_sessions := ?ss @ [s]\<rparr>) ! k) = Some h"
    then have k: "k < length (?ss @ [s])" and j: "j < length (?ss @ [s])"
      and h: "held ((?ss @ [s]) ! k) = Some h" by simp_all
    from old[OF k h] have k': "k < length ?ss" .
    with h nth have hk: "held (?ss ! k) = Some h" by simp
    have "held ((?ss @ [s]) ! j) \<noteq> Some h"
    proof
      assume hj: "held ((?ss @ [s]) ! j) = Some h"
      from old[OF j hj] have j': "j < length ?ss" .
      with hj nth have "held (?ss ! j) = Some h" by simp
      with apart[OF k' j' kj hk] show False by simp
    qed
    then show "held (sys_sessions (sys\<lparr>sys_sessions := ?ss @ [s]\<rparr>) ! j) \<noteq> Some h"
      by simp
  qed
qed

lemma reachable_inv:
  assumes "reachable ev libs kws sys"
  shows "sys_inv sys"
  using assms
proof (induction rule: reachable.induct)
  case start
  show ?case by (simp add: sys_inv_def State_init_def)
next
  case (connect sys info sens cid)
  have "held (session_init info sens cid) = None"
    by (simp add: held_def session_init_def)
  from sys_inv_append[OF connect.IH this] show ?case .
next
  case (event sys i e b s' w' out)
  from handle_event_world[OF event.hyps(3)]
  have st: "state w' = state (sys_world sys)"
    and alt: "held s' = held (sys_sessions sys ! i) \<and> next_handle w' = next_handle (sys_world sys)
        \<or> held s' = None \<and> w' = sys_world sys
        \<or> held s' = Some (next_handle (sys_world sys)) \<and> next_handle w' = Suc (next_handle (sys_world sys))"
    by blast+
  from sys_inv_update[OF event.IH event.hyps(2) st alt] show ?case .
next
  case (leave sys i s' w')
  from disconnect_world[OF leave.hyps(3)]
  have st: "state w' = state (sys_world sys)"
    and alt: "held s' = held (sys_sessions sys ! i) \<and> next_handle w' = next_handle (sys_world sys)
        \<or> held s' = None \<and> w' = sys_world sys
        \<or> held s' = Some (next_handle (sys_world sys)) \<and> next_handle w' = Suc (next_handle (sys_world sys))"
    by simp_all
  from sys_inv_update[OF leave.IH leave.hyps(2) st alt] show ?case .
qed

section \<open>Events the handler does not know\<close>

text \<open>
  Claim C9. An inbound event whose type is none of Describe, Detect, AudioStart,
  AudioChunk and AudioStop leaves the session (audio buffer, bound detector, detected
  flag, frame format and every other field) and the process state as they are, writes
  no event, and the handler returns \<open>True\<close>, which keeps the connection open.
\<close>

theorem unexpected_event_ignored:
  "handle_event ev w s (Other ty) = Some (Inr (True, s, w, []))"
  by (simp add: handle_event_def)

section \<open>A registry without keywords\<close>

text \<open>
  Claim C7. The claim asks for the dedicated "no keywords" failure when the registry
  holds zero keywords. The guard of \<open>get_porcupine\<close> tests the dictionary against
  \<open>None\<close> only: on the empty dictionary, which is what \<open>main\<close> passes when no keyword
  file matches, the list of paths stays empty and \<open>keywords_paths[0]\<close> raises
  \<open>IndexError\<close>, which also leaves the handler of the first \<open>AudioChunk\<close> of a session
  as an exception.
\<close>

theorem no_keywords_index_error:
  "get_porcupine ev \<lparr>state = State_init libs (Some []), next_handle = n\<rparr> sens = Inl IndexError
   \<and> handle_event ev \<lparr>state = State_init libs (Some []), next_handle = n\<rparr>
        (session_init info sens cid) (AudioChunk c) = Some (Inl IndexError)"
  by (simp add: get_porcupine_def State_init_def handle_event_def load_keyword_def session_init_def)

section \<open>AudioStop\<close>

text \<open>
  Claim C4, as amended. Handling an AudioStop event writes NotDetected when the
  detected flag is false, leaves the session and the process state unchanged, and
  returns \<open>False\<close>: the event loop ends there, whatever events follow, so no later
  bracket is handled on the connection.
\<close>

theorem audio_stop_ends_connection:
  "handle_event ev w s AudioStop = Some (Inr (False, s, w, if detected s then [] else [NotDetected]))
   \<and> run_events ev w s (AudioStop # rest) = Some (Inr (False, s, w, if detected s then [] else [NotDetected]))"
  by (simp add: handle_event_def)

text \<open>
  Claim C4, as stated, fails: of two brackets sent on one connection only the first is
  handled; the loop has ended with \<open>False\<close> after the first AudioStop and a single
  NotDetected has been written.
\<close>

theorem second_bracket_not_processed:
  "run_events demo_env demo_world demo_session [AudioStart, AudioStop, AudioStart, AudioStop]
     = Some (Inr (False, demo_session, demo_world, [NotDetected]))"
  by (simp add: handle_event_def demo_session_def session_init_def)

section \<open>The detected flag\<close>

text \<open>
  Claim C2. The claim says that a positive detection sets the detected flag, so that
  an AudioStop after it writes no NotDetected. No branch of the handler assigns
  \<open>True\<close> to the flag: in a bracket whose only frame makes the engine report index 0,
  the Detection is written, the flag is still false at the end, and AudioStop writes
  NotDetected after it.
\<close>

theorem not_detected_after_detection:
  "run_events demo_env demo_world demo_session
     [Detect (Some [''computer'']), AudioStart, AudioChunk (demo_chunk [1, 0]), AudioStop]
   = Some (Inr (False, demo_armed 0 [[1]] [], demo_world\<lparr>next_handle := 1\<rparr>,
                [Detection ''alexa'' (Some 7), NotDetected]))"
  by (simp add: demo_defs exec_defs)

section \<open>The name of a detection\<close>

text \<open>
  Claim C3. The claim says that a Detection carries the name of the keyword the
  returned index stands for. The handler writes the fixed name \<open>alexa\<close>: with
  \<open>computer\<close> as the only configured keyword, index 0 is \<open>computer\<close>, and the
  Detection written is named \<open>alexa\<close>.
\<close>

theorem detection_name_hard_coded:
  "handle_event demo_env demo_world demo_session (AudioChunk (demo_chunk [1, 0]))
   = Some (Inr (True, demo_armed 0 [[1]] [], demo_world\<lparr>next_handle := 1\<rparr>,
                [Detection ''alexa'' (Some 7)]))"
  by (simp add: demo_defs exec_defs)

section \<open>Frame alignment\<close>

text \<open>
  Claim C1. A session that is ready for audio with an engine of positive frame length
  handles any non-empty sequence of AudioChunk events without error and stays open.
  The frames passed to \<open>process\<close>, in order, are the consecutive full frames of the
  bytes pending in the buffer followed by the normalized payloads in arrival order;
  every frame has \<open>frame_byte_length\<close> bytes; the frames followed by what is left in
  the buffer are exactly those bytes, so no byte is processed twice and none is
  dropped; less than one frame stays buffered. When less than a frame was pending and
  the payloads total \<open>k\<close> frames, \<open>process\<close> is called exactly \<open>k\<close> times and as many
  bytes stay pending as before (none, from an empty buffer). In the witness a payload
  of \<open>frame_byte_length - 1\<close> bytes followed by one of 1 byte makes one call.
\<close>

theorem frame_alignment:
  assumes "ready ev w s p" and "0 < frame_length p" and "cs \<noteq> []"
  shows "\<exists>s' w' out d'.
       run_events ev w s (map AudioChunk cs) = Some (Inr (True, s', w', out))
     \<and> detector s' = Some d'
     \<and> processed (porcupine d') =
         processed p @ map samples (frames_of (frame_byte_length p) (audio_buffer s @ stream_of ev cs))
     \<and> (\<forall>f \<in> set (frames_of (frame_byte_length p) (audio_buffer s @ stream_of ev cs)).
           length f = frame_byte_length p)
     \<and> concat (frames_of (frame_byte_length p) (audio_buffer s @ stream_of ev cs)) @ audio_buffer s'
         = audio_buffer s @ stream_of ev cs
     \<and> length (audio_buffer s') < frame_byte_length p
     \<and> (\<forall>k. length (audio_buffer s) < frame_byte_length p \<and> length (stream_of ev cs) = k * frame_byte_length p
           \<longrightarrow> length (frames_of (frame_byte_length p) (audio_buffer s @ stream_of ev cs)) = k
               \<and> length (audio_buffer s') = length (audio_buffer s))"
proof -
  let ?n = "frame_byte_length p"
  let ?b = "audio_buffer s @ stream_of ev cs"
  from assms(3) obtain c cs' where cs: "cs = c # cs'" by (cases cs) auto
  have npos: "0 < ?n" using assms(2) by (simp add: frame_byte_length_def)
  have "\<exists>s' w' out d'. run_events ev w s (map AudioChunk cs) = Some (Inr (True, s', w', out))
     \<and> detector s' = Some d' \<and> porcupine d' = after_frames p (map samples (frames_of ?n ?b))
     \<and> audio_buffer s' = leftover ?n ?b"
  proof (cases "detector s")
    case (Some d)
    with assms(1) have p: "porcupine d = p" and bpc: "bytes_per_chunk s = frame_length (porcupine d) * 2"
      and fmt: "chunk_format s = replicate (nat (frame_length (porcupine d))) CHR ''h''"
      by (simp_all add: ready_def)
    from assms(2) p have pos: "0 < frame_length (porcupine d)" by simp
    from run_chunks_bound[OF Some pos bpc fmt, of ev w c cs']
    obtain s' out where "run_events ev w s (map AudioChunk cs) = Some (Inr (True, s', w, out))"
      and "detector s' = Some (d\<lparr>porcupine := after_frames p (map samples (frames_of ?n ?b))\<rparr>)"
      and "audio_buffer s' = leftover ?n ?b"
      unfolding cs p by blast
    then show ?thesis by simp
  next
    case None
    with assms(1) obtain d w' where gp: "get_porcupine ev w (cli_sensitivity s) = Inr (d, w')"
      and p: "porcupine d = p"
      by (auto simp: ready_def split: sum.splits)
    let ?s1 = "s\<lparr>detector := Some d,
          chunk_format := replicate (nat (frame_length (porcupine d))) CHR ''h'',
          bytes_per_chunk := frame_length (porcupine d) * 2\<rparr>"
    have eq: "run_events ev w s (map AudioChunk cs) = run_events ev w' ?s1 (map AudioChunk cs)"
      unfolding cs using chunk_unbound[OF None gp] by simp
    have b1: "detector ?s1 = Some d" and b3: "bytes_per_chunk ?s1 = frame_length (porcupine d) * 2"
      and b4: "chunk_format ?s1 = replicate (nat (frame_length (porcupine d))) CHR ''h''"
      and b5: "audio_buffer ?s1 = audio_buffer s"
      by simp_all
    from assms(2) p have pos: "0 < frame_length (porcupine d)" by simp
    have "\<exists>s' out. run_events ev w' ?s1 (map AudioChunk cs) = Some (Inr (True, s', w', out))
      \<and> detector s' = Some (d\<lparr>porcupine := after_frames p (map samples (frames_of ?n ?b))\<rparr>)
      \<and> audio_buffer s' = leftover ?n ?b"
      using run_chunks_bound[OF b1 pos b3 b4, of ev w' c cs'] unfolding cs p by simp
    then obtain s' out where "run_events ev w' ?s1 (map AudioChunk cs) = Some (Inr (True, s', w', out))"
      and "detector s' = Some (d\<lparr>porcupine := after_frames p (map samples (frames_of ?n ?b))\<rparr>)"
      and "audio_buffer s' = leftover ?n ?b"
      by blast
    with eq show ?thesis by simp
  qed
  then obtain s' w' out d' where run: "run_events ev w s (map AudioChunk cs) = Some (Inr (True, s', w', out))"
    and det: "detector s' = Some d'"
    and eng: "porcupine d' = after_frames p (map samples (frames_of ?n ?b))"
    and buf: "audio_buffer s' = leftover ?n ?b"
    by blast
  have c1: "processed (porcupine d') = processed p @ map samples (frames_of ?n ?b)"
    unfolding eng by (simp add: after_frames_def)
  have c2: "\<forall>f \<in> set (frames_of ?n ?b). length f = ?n"
    by (simp add: frames_of_length)
  have c3: "concat (frames_of ?n ?b) @ audio_buffer s' = ?b"
    unfolding buf by (rule frames_of_leftover)
  have c4: "length (audio_buffer s') < ?n"
    unfolding buf by (rule leftover_short[OF npos])
  have c5: "\<forall>k. length (audio_buffer s) < ?n \<and> length (stream_of ev cs) = k * ?n
           \<longrightarrow> length (frames_of ?n ?b) = k \<and> length (audio_buffer s') = length (audio_buffer s)"
    unfolding buf using frames_of_whole[OF npos] by blast
  show ?thesis
    using run det c1 c2 c3 c4 c5 by blast
qed

theorem frame_alignment_witness:
  "ready demo_env demo_world demo_session (demo_porcupine 0 [])
   \<and> 0 < frame_length (demo_porcupine 0 [])
   \<and> [demo_chunk [1], demo_chunk [0]] \<noteq> []
   \<and> (\<exists>s' w' out d'.
         run_events demo_env demo_world demo_session (map AudioChunk [demo_chunk [1], demo_chunk [0]])
           = Some (Inr (True, s', w', out))
       \<and> detector s' = Some d' \<and> processed (porcupine d') = [[1]] \<and> audio_buffer s' = [])"
proof -
  let ?p = "demo_porcupine 0 []"
  let ?cs = "[demo_chunk [1], demo_chunk [0]]"
  have h1: "ready demo_env demo_world demo_session ?p"
    by (simp add: ready_def demo_defs get_porcupine_def pvporcupine_create_def)
  have h2: "0 < frame_length ?p"
    by (simp add: demo_porcupine_def)
  have h3: "?cs \<noteq> []"
    by simp
  have n: "frame_byte_length ?p = 2"
    by (simp add: frame_byte_length_def demo_porcupine_def)
  have str: "audio_buffer demo_session @ stream_of demo_env ?cs = [1, 0]"
    by (simp add: stream_of_def demo_defs)
  have fr: "frames_of 2 [1, 0 :: byte] = [[1, 0]]"
    by (simp add: frames_of.simps)
  have sm: "map samples [[1, 0 :: byte]] = [[1]]"
    by (simp add: sample_def word_cat_eq)
  from frame_alignment[OF h1 h2 h3]
  obtain s' w' out d' where
    "run_events demo_env demo_world demo_session (map AudioChunk ?cs) = Some (Inr (True, s', w', out))"
    "detector s' = Some d'"
    "processed (porcupine d') = processed ?p
        @ map samples (frames_of (frame_byte_length ?p) (audio_buffer demo_session @ stream_of demo_env ?cs))"
    "length (audio_buffer s') < frame_byte_length ?p"
    "concat (frames_of (frame_byte_length ?p) (audio_buffer demo_session @ stream_of demo_env ?cs)) @ audio_buffer s'
       = audio_buffer demo_session @ stream_of demo_env ?cs"
    by blast
  then have "run_events demo_env demo_world demo_session (map AudioChunk ?cs) = Some (Inr (True, s', w', out))
       \<and> detector s' = Some d' \<and> processed (porcupine d') = [[1]] \<and> audio_buffer s' = []"
    unfolding n str fr sm by (simp add: demo_porcupine_def)
  with h1 h2 h3 show ?thesis by blast
qed

section \<open>Less than a frame stays buffered\<close>

text \<open>
  Claim C8. In every state that a session reaches from its initial state by handling
  events, if a detector is bound and its frame length is positive, then the session's
  frame size is the frame length times 2 and the audio buffer holds strictly fewer
  bytes than one frame: the drain loop never leaves a full frame unprocessed.
\<close>

theorem buffer_below_frame:
  assumes "run_events ev w (session_init info sens cid) evs = Some (Inr (b, s, w', out))"
    and "detector s = Some d"
    and "0 < frame_length (porcupine d)"
  shows "bytes_per_chunk s = frame_length (porcupine d) * 2
     \<and> int (length (audio_buffer s)) < bytes_per_chunk s"
proof -
  obtain F where F: "engines_have ev (state w) F"
    using engines_have_ex by blast
  have "framed F (session_init info sens cid)"
    by (simp add: framed_def session_init_def)
  from run_events_framed[OF assms(1) this F] have "framed F s" .
  with assms(2,3) show ?thesis
    by (simp add: framed_def)
qed

theorem buffer_below_frame_witness:
  "run_events demo_env demo_world (session_init [(''computer'', ''en'')] (1 / 2) ''1'')
      [AudioChunk (demo_chunk [1, 0, 0])]
     = Some (Inr (True, demo_armed 0 [[1]] [0], demo_world\<lparr>next_handle := 1\<rparr>,
                  [Detection ''alexa'' (Some 7)]))
   \<and> detector (demo_armed 0 [[1]] [0]) = Some \<lparr>porcupine = demo_porcupine 0 [[1]], sensitivity = 1 / 2\<rparr>
   \<and> 0 < frame_length (porcupine \<lparr>porcupine = demo_porcupine 0 [[1]], sensitivity = 1 / 2\<rparr>)
   \<and> bytes_per_chunk (demo_armed 0 [[1]] [0]) = 2
   \<and> int (length (audio_buffer (demo_armed 0 [[1]] [0]))) < bytes_per_chunk (demo_armed 0 [[1]] [0])"
proof -
  let ?d = "\<lparr>porcupine = demo_porcupine 0 [[1]], sensitivity = 1 / 2\<rparr>"
  have h1: "run_events demo_env demo_world (session_init [(''computer'', ''en'')] (1 / 2) ''1'')
      [AudioChunk (demo_chunk [1, 0, 0])]
     = Some (Inr (True, demo_armed 0 [[1]] [0], demo_world\<lparr>next_handle := 1\<rparr>,
                  [Detection ''alexa'' (Some 7)]))"
    by (simp add: demo_defs exec_defs)
  have h2: "detector (demo_armed 0 [[1]] [0]) = Some ?d"
    by (simp add: demo_armed_def)
  have h3: "0 < frame_length (porcupine ?d)"
    by (simp add: demo_porcupine_def)
  from buffer_below_frame[OF h1 h2 h3] h1 h2 h3 show ?thesis
    by (simp add: demo_porcupine_def)
qed

section \<open>Detect\<close>




section \<open>Disconnect and the next acquisition\<close>

text \<open>
  Claim C5, as amended. Disconnecting a session with a bound detector only unbinds the
  detector: the shared state, and with it the detector cache, is unchanged. An
  acquisition after it, whatever its sensitivity, leaves the cache unchanged as well
  and returns a newly constructed engine: it has the next unused identity, which is
  not that of the released engine, and has processed no frame.
\<close>

theorem disconnect_drops_detector:
  assumes "detector s = Some d"
    and "handle (porcupine d) < next_handle w"
    and "disconnect w s = (s1, w1)"
    and "get_porcupine ev w1 sens = Inr (d', w')"
  shows "s1 = s\<lparr>detector := None\<rparr> \<and> w1 = w
     \<and> detector_cache (state w') = detector_cache (state w)
     \<and> handle (porcupine d') = next_handle w
     \<and> handle (porcupine d') \<noteq> handle (porcupine d)
     \<and> processed (porcupine d') = []"
proof -
  from assms(1,3) have s1: "s1 = s\<lparr>detector := None\<rparr>" and w1: "w1 = w"
    by (simp_all add: disconnect_def)
  from assms(4) w1 have g: "get_porcupine ev w sens = Inr (d', w')" by simp
  from get_porcupine_result[OF g] assms(2) s1 w1 show ?thesis by simp
qed

theorem disconnect_drops_detector_witness:
  "detector (demo_armed 0 [[1]] []) = Some \<lparr>porcupine = demo_porcupine 0 [[1]], sensitivity = 1 / 2\<rparr>
   \<and> handle (porcupine \<lparr>porcupine = demo_porcupine 0 [[1]], sensitivity = 1 / 2\<rparr>)
       < next_handle (demo_world\<lparr>next_handle := 1\<rparr>)
   \<and> disconnect (demo_world\<lparr>next_handle := 1\<rparr>) (demo_armed 0 [[1]] [])
       = ((demo_armed 0 [[1]] [])\<lparr>detector := None\<rparr>, demo_world\<lparr>next_handle := 1\<rparr>)
   \<and> get_porcupine demo_env (demo_world\<lparr>next_handle := 1\<rparr>) (1 / 2)
       = Inr (\<lparr>porcupine = demo_porcupine 1 [], sensitivity = 1 / 2\<rparr>, demo_world\<lparr>next_handle := 2\<rparr>)
   \<and> detector_cache (state (demo_world\<lparr>next_handle := 2\<rparr>)) = detector_cache (state (demo_world\<lparr>next_handle := 1\<rparr>))
   \<and> handle (porcupine \<lparr>porcupine = demo_porcupine 1 [], sensitivity = 1 / 2\<rparr>) = 1"
proof -
  let ?w = "demo_world\<lparr>next_handle := 1\<rparr>"
  let ?s = "demo_armed 0 [[1]] []"
  let ?d = "\<lparr>porcupine = demo_porcupine 0 [[1]], sensitivity = 1 / 2\<rparr>"
  let ?d' = "\<lparr>porcupine = demo_porcupine 1 [], sensitivity = 1 / 2\<rparr>"
  have h1: "detector ?s = Some ?d" by (simp add: demo_armed_def)
  have h2: "handle (porcupine ?d) < next_handle ?w" by (simp add: demo_porcupine_def)
  have h3: "disconnect ?w ?s = (?s\<lparr>detector := None\<rparr>, ?w)" by (simp add: disconnect_def demo_armed_def)
  have h4: "get_porcupine demo_env ?w (1 / 2) = Inr (?d', demo_world\<lparr>next_handle := 2\<rparr>)"
    by (simp add: demo_defs get_porcupine_def pvporcupine_create_def)
  from disconnect_drops_detector[OF h1 h2 h3 h4] h1 h2 h3 h4 show ?thesis
    by simp
qed

text \<open>
  Claim C5, as stated, fails: after the disconnect of a session whose engine has
  processed a frame the cache is empty, and the acquisition with the same sensitivity
  returns engine 1 with no frame processed, not the released engine 0.
\<close>

theorem released_detector_not_reused:
  "disconnect (demo_world\<lparr>next_handle := 1\<rparr>) (demo_armed 0 [[1]] [])
       = ((demo_armed 0 [[1]] [])\<lparr>detector := None\<rparr>, demo_world\<lparr>next_handle := 1\<rparr>)
   \<and> detector_cache (state (demo_world\<lparr>next_handle := 1\<rparr>)) = []
   \<and> get_porcupine demo_env (demo_world\<lparr>next_handle := 1\<rparr>) (1 / 2)
       = Inr (\<lparr>porcupine = demo_porcupine 1 [], sensitivity = 1 / 2\<rparr>, demo_world\<lparr>next_handle := 2\<rparr>)
   \<and> demo_porcupine 1 [] \<noteq> demo_porcupine 0 [[1]]"
  by (simp add: demo_defs disconnect_def get_porcupine_def pvporcupine_create_def)

section \<open>The detector cache\<close>

text \<open>
  Claim C10. In every state that a process with any number of sessions reaches
  (sessions connect, handle events and disconnect in any order), the detector cache
  is empty; no two sessions hold the same engine instance; an acquisition returns an
  engine that has processed no frame and that no session holds, and leaves the cache
  empty; what an acquisition returns does not depend on the contents of the cache, so
  the cache is never read; and a disconnect leaves the process state, and with it the
  cache, as it is.
\<close>

theorem cache_never_used:
  assumes "reachable ev libs kws sys"
  shows "detector_cache (state (sys_world sys)) = []
     \<and> (\<forall>i < length (sys_sessions sys). \<forall>j < length (sys_sessions sys). \<forall>d d'.
           i \<noteq> j \<longrightarrow> detector (sys_sessions sys ! i) = Some d
           \<longrightarrow> detector (sys_sessions sys ! j) = Some d'
           \<longrightarrow> handle (porcupine d) \<noteq> handle (porcupine d'))
     \<and> (\<forall>sens d w'. get_porcupine ev (sys_world sys) sens = Inr (d, w')
           \<longrightarrow> processed (porcupine d) = [] \<and> detector_cache (state w') = []
             \<and> (\<forall>i < length (sys_sessions sys). \<forall>d0. detector (sys_sessions sys ! i) = Some d0
                   \<longrightarrow> handle (porcupine d0) \<noteq> handle (porcupine d)))
     \<and> (\<forall>sens c. map_sum id fst (get_porcupine ev
              ((sys_world sys)\<lparr>state := (state (sys_world sys))\<lparr>detector_cache := c\<rparr>\<rparr>) sens)
           = map_sum id fst (get_porcupine ev (sys_world sys) sens))
     \<and> (\<forall>i < length (sys_sessions sys).
           snd (disconnect (sys_world sys) (sys_sessions sys ! i)) = sys_world sys)"
proof -
  let ?ss = "sys_sessions sys"
  let ?w = "sys_world sys"
  from reachable_inv[OF assms] have cache: "detector_cache (state ?w) = []"
    and below: "\<And>k h. k < length ?ss \<Longrightarrow> held (?ss ! k) = Some h \<Longrightarrow> h < next_handle ?w"
    and apart: "\<And>k j h. k < length ?ss \<Longrightarrow> j < length ?ss \<Longrightarrow> k \<noteq> j
          \<Longrightarrow> held (?ss ! k) = Some h \<Longrightarrow> held (?ss ! j) \<noteq> Some h"
    unfolding sys_inv_def by blast+
  have c2: "\<forall>i < length ?ss. \<forall>j < length ?ss. \<forall>d d'.
           i \<noteq> j \<longrightarrow> detector (?ss ! i) = Some d \<longrightarrow> detector (?ss ! j) = Some d'
           \<longrightarrow> handle (porcupine d) \<noteq> handle (porcupine d')"
  proof (intro allI impI)
    fix i j d d'
    assume "i < length ?ss" "j < length ?ss" "i \<noteq> j"
      and d: "detector (?ss ! i) = Some d" and d': "detector (?ss ! j) = Some d'"
    from apart[OF this(1,2,3), of "handle (porcupine d)"] d d'
    show "handle (porcupine d) \<noteq> handle (porcupine d')"
      by (simp add: held_def)
  qed
  have c3: "\<forall>sens d w'. get_porcupine ev ?w sens = Inr (d, w')
           \<longrightarrow> processed (porcupine d) = [] \<and> detector_cache (state w') = []
             \<and> (\<forall>i < length ?ss. \<forall>d0. detector (?ss ! i) = Some d0
                   \<longrightarrow> handle (porcupine d0) \<noteq> handle (porcupine d))"
  proof (intro allI impI conjI)
    fix sens d w'
    assume g: "get_porcupine ev ?w sens = Inr (d, w')"
    from get_porcupine_result(3)[OF g] show "processed (porcupine d) = []" .
    from get_porcupine_result(1)[OF g] cache show "detector_cache (state w') = []" by simp
    fix i d0
    assume "i < length ?ss" and d0: "detector (?ss ! i) = Some d0"
    from below[OF this(1), of "handle (porcupine d0)"] d0
    have "handle (porcupine d0) < next_handle ?w" by (simp add: held_def)
    with get_porcupine_result(2)[OF g] show "handle (porcupine d0) \<noteq> handle (porcupine d)"
      by simp
  qed
  have c4: "\<forall>sens c. map_sum id fst (get_porcupine ev (?w\<lparr>state := (state ?w)\<lparr>detector_cache := c\<rparr>\<rparr>) sens)
           = map_sum id fst (get_porcupine ev ?w sens)"
    by (simp add: get_porcupine_cache)
  have c5: "\<forall>i < length ?ss. snd (disconnect ?w (?ss ! i)) = ?w"
    by (simp add: disconnect_def split: option.splits)
  from cache c2 c3 c4 c5 show ?thesis by blast
qed

theorem cache_never_used_witness:
  "reachable demo_env demo_libs (Some demo_keywords) demo_system
   \<and> detector_cache (state (sys_world demo_system)) = []
   \<and> detector (sys_sessions demo_system ! 0) = Some \<lparr>porcupine = demo_porcupine 0 [], sensitivity = 1 / 2\<rparr>
   \<and> detector (sys_sessions demo_system ! 1) = Some \<lparr>porcupine = demo_porcupine 1 [], sensitivity = 1 / 2\<rparr>
   \<and> handle (demo_porcupine 0 []) \<noteq> handle (demo_porcupine 1 [])"
proof -
  let ?R = "reachable demo_env demo_libs (Some demo_keywords)"
  have r0: "?R \<lparr>sys_world = demo_world, sys_sessions = []\<rparr>"
    unfolding demo_world_def by (rule reachable.start)
  have r1: "?R \<lparr>sys_world = demo_world, sys_sessions = [demo_session]\<rparr>"
    using reachable.connect[OF r0, of "[(''computer'', ''en'')]" "1 / 2" "''1''"]
    by (simp add: demo_session_def)
  have r2: "?R \<lparr>sys_world = demo_world, sys_sessions = [demo_session, demo_session]\<rparr>"
    using reachable.connect[OF r1, of "[(''computer'', ''en'')]" "1 / 2" "''1''"]
    by (simp add: demo_session_def)
  have e1: "handle_event demo_env demo_world demo_session (Detect (Some [''computer'']))
      = Some (Inr (True, demo_armed 0 [] [], demo_world\<lparr>next_handle := 1\<rparr>, []))"
    by (simp add: demo_defs exec_defs)
  have r3: "?R \<lparr>sys_world = demo_world\<lparr>next_handle := 1\<rparr>, sys_sessions = [demo_armed 0 [] [], demo_session]\<rparr>"
    using reachable.event[OF r2, of 0 "Detect (Some [''computer''])" True "demo_armed 0 [] []"
        "demo_world\<lparr>next_handle := 1\<rparr>" "[]"] e1
    by simp
  have e2: "handle_event demo_env (demo_world\<lparr>next_handle := 1\<rparr>) demo_session (Detect (Some [''computer'']))
      = Some (Inr (True, demo_armed 1 [] [], demo_world\<lparr>next_handle := 2\<rparr>, []))"
    by (simp add: demo_defs exec_defs)
  have r4: "?R demo_system"
    using reachable.event[OF r3, of 1 "Detect (Some [''computer''])" True "demo_armed 1 [] []"
        "demo_world\<lparr>next_handle := 2\<rparr>" "[]"] e2
    by (simp add: demo_system_def)
  have d0: "detector (sys_sessions demo_system ! 0) = Some \<lparr>porcupine = demo_porcupine 0 [], sensitivity = 1 / 2\<rparr>"
    and d1: "detector (sys_sessions demo_system ! 1) = Some \<lparr>porcupine = demo_porcupine 1 [], sensitivity = 1 / 2\<rparr>"
    and len: "0 < length (sys_sessions demo_system)" "1 < length (sys_sessions demo_system)"
    by (simp_all add: demo_system_def demo_armed_def)
  from cache_never_used[OF r4] have c1: "detector_cache (state (sys_world demo_system)) = []"
    and c2: "\<forall>i < length (sys_sessions demo_system). \<forall>j < length (sys_sessions demo_system). \<forall>d d'.
           i \<noteq> j \<longrightarrow> detector (sys_sessions demo_system ! i) = Some d
           \<longrightarrow> detector (sys_sessions demo_system ! j) = Some d'
           \<longrightarrow> handle (porcupine d) \<noteq> handle (porcupine d')"
    by blast+
  have ne: "(0::nat) \<noteq> 1" by simp
  from c2[rule_format, OF len(1) len(2) ne d0 d1]
  have "handle (demo_porcupine 0 []) \<noteq> handle (demo_porcupine 1 [])"
    by simp
  with r4 c1 d0 d1 show ?thesis by blast
qed

end
